theory Spec2Isabelle
  imports Complex_Main "HOL-Library.FSet"
begin

section \<open>Conventions of the embedding\<close>

text \<open>
  The functions of \<^verbatim>\<open>src/infre/retrieval.py\<close> and the vectorising methods of
  \<^verbatim>\<open>src/infre/models/bmodel.py\<close> are embedded as HOL functions.

  \<^item> Python's \<^verbatim>\<open>int\<close> is \<open>int\<close> or \<open>nat\<close> (counters that only grow from 0 or 1);
    Python's \<^verbatim>\<open>float\<close> and numpy's \<^verbatim>\<open>float64\<close> are idealised as \<open>real\<close>: every
    arithmetic operation is exact, there is no NaN, no overflow and no rounding other
    than the explicit calls of \<^verbatim>\<open>round\<close>. The one question that depends on the range of
    \<^verbatim>\<open>float64\<close>, whether the divisor of \<^verbatim>\<open>cosine_similarity\<close> can be zero, is answered
    on a second embedding of that function which keeps the range.
  \<^item> A Python \<^verbatim>\<open>set\<close> is an \<open>fset\<close>, \<^verbatim>\<open>len\<close> is \<open>fcard\<close>.
  \<^item> A Python \<^verbatim>\<open>dict\<close> that is iterated is an association list in insertion order;
    a \<^verbatim>\<open>dict\<close> that is only looked up is a map.
  \<^item> A \<^verbatim>\<open>frozenset\<close> of terms is the list of its elements in the order in which Python
    iterates it.
  \<^item> Every exception the code can raise is a value \<open>Inl e\<close> of the result type.
\<close>

datatype error = ZeroDivisionError | ValueError | KeyError | IndexError | FloatingPointError

definition bind :: "error + 'a \<Rightarrow> ('a \<Rightarrow> error + 'b) \<Rightarrow> error + 'b" where
  "bind m f = (case m of Inl e \<Rightarrow> Inl e | Inr x \<Rightarrow> f x)"

text \<open>Python's true division \<^verbatim>\<open>a / b\<close> on numbers: it raises on a zero divisor.\<close>

definition py_div :: "real \<Rightarrow> real \<Rightarrow> error + real" where
  "py_div a b = (if b = 0 then Inl ZeroDivisionError else Inr (a / b))"

section \<open>Evaluator: \<^verbatim>\<open>calc_precision_recall\<close>\<close>

text \<open>The four local variables of \<^verbatim>\<open>calc_precision_recall\<close>.\<close>

record pr_state =
  cnt :: nat
  retrieved :: nat
  recall :: "real list"
  precision :: "real list"

text \<open>
  One iteration of \<^verbatim>\<open>for doc in sim_docs\<close>: on a relevant document the hit counter
  is incremented and both quotients are appended; the position counter is incremented in
  every iteration.
\<close>

definition pr_step :: "'a fset \<Rightarrow> 'a \<Rightarrow> pr_state \<Rightarrow> error + pr_state" where
  "pr_step relevant doc s =
     (if doc |\<in>| relevant then
        (let c = cnt s + 1 in
         bind (py_div (real c) (real (retrieved s))) (\<lambda>p.
         bind (py_div (real c) (real (fcard relevant))) (\<lambda>r.
         Inr (s\<lparr>cnt := c, retrieved := retrieved s + 1,
                 recall := recall s @ [r], precision := precision s @ [p]\<rparr>))))
      else Inr (s\<lparr>retrieved := retrieved s + 1\<rparr>))"

fun pr_loop :: "'a fset \<Rightarrow> 'a list \<Rightarrow> pr_state \<Rightarrow> error + pr_state" where
  "pr_loop relevant [] s = Inr s"
| "pr_loop relevant (doc # docs) s = bind (pr_step relevant doc s) (pr_loop relevant docs)"

definition pr_init :: pr_state where
  "pr_init = \<lparr>cnt = 0, retrieved = 1, recall = [], precision = []\<rparr>"

definition calc_precision_recall :: "'a list \<Rightarrow> 'a fset \<Rightarrow> error + (real \<times> real)" where
  "calc_precision_recall sim_docs relevant =
     bind (pr_loop relevant sim_docs pr_init) (\<lambda>s.
     bind (py_div (sum_list (precision s)) (real (length (precision s)))) (\<lambda>avg_pre.
     bind (py_div (sum_list (recall s)) (real (length (recall s)))) (\<lambda>avg_rec.
     Inr (avg_pre, avg_rec))))"

subsection \<open>The evaluator as the specification words it\<close>

text \<open>
  Positions are counted from 1 in the specification; index \<open>i\<close> of the list is
  position \<open>i + 1\<close>. \<open>spec_hits\<close> is the running count of relevant documents among the
  first \<open>i + 1\<close> ranked ones, \<open>spec_hit_positions\<close> are the indices whose document is
  relevant.
\<close>

definition spec_hits :: "'a list \<Rightarrow> 'a fset \<Rightarrow> nat \<Rightarrow> nat" where
  "spec_hits ranked relevant i = length (filter (\<lambda>d. d |\<in>| relevant) (take (i + 1) ranked))"

definition spec_hit_positions :: "'a list \<Rightarrow> 'a fset \<Rightarrow> nat list" where
  "spec_hit_positions ranked relevant =
     filter (\<lambda>i. ranked ! i |\<in>| relevant) [0..<length ranked]"

definition spec_precisions :: "'a list \<Rightarrow> 'a fset \<Rightarrow> real list" where
  "spec_precisions ranked relevant =
     map (\<lambda>i. real (spec_hits ranked relevant i) / real (i + 1))
       (spec_hit_positions ranked relevant)"

definition spec_recalls :: "'a list \<Rightarrow> 'a fset \<Rightarrow> real list" where
  "spec_recalls ranked relevant =
     map (\<lambda>i. real (spec_hits ranked relevant i) / real (fcard relevant))
       (spec_hit_positions ranked relevant)"

definition average :: "real list \<Rightarrow> real" where
  "average vs = sum_list vs / real (length vs)"

section \<open>Numeric primitives\<close>

text \<open>
  \<^verbatim>\<open>math.log2\<close> raises \<^verbatim>\<open>ValueError\<close> (math domain error) on an argument that is not
  positive.
\<close>

definition math_log2 :: "real \<Rightarrow> error + real" where
  "math_log2 x = (if x \<le> 0 then Inl ValueError else Inr (log 2 x))"

text \<open>
  Rounding to the nearest integer, ties to the even neighbour: what \<^verbatim>\<open>numpy.rint\<close> and
  Python's \<^verbatim>\<open>round\<close> both do.
\<close>

definition rint :: "real \<Rightarrow> int" where
  "rint x =
     (let f = \<lfloor>x\<rfloor>; d = x - of_int f
      in if d < 1 / 2 then f else if 1 / 2 < d then f + 1 else if even f then f else f + 1)"

text \<open>
  \<^verbatim>\<open>retrieval.py\<close> imports \<^verbatim>\<open>round\<close> from numpy: scale by \<open>10 ^ decimals\<close>, round to
  the nearest integer, scale back.
\<close>

definition np_round :: "real \<Rightarrow> nat \<Rightarrow> real" where
  "np_round x decimals = of_int (rint (x * 10 ^ decimals)) / 10 ^ decimals"


text \<open>A list comprehension whose element expression may raise: the first failure wins.\<close>

fun mapM :: "('a \<Rightarrow> error + 'b) \<Rightarrow> 'a list \<Rightarrow> error + 'b list" where
  "mapM f [] = Inr []"
| "mapM f (x # xs) = bind (f x) (\<lambda>y. bind (mapM f xs) (\<lambda>ys. Inr (y # ys)))"

section \<open>Vectorizer: \<^verbatim>\<open>calculate_ts_idf\<close>, \<^verbatim>\<open>calculate_tsf\<close>, \<^verbatim>\<open>calculate_tnw\<close>\<close>

text \<open>
  The termset occurrence map is a \<^verbatim>\<open>dict\<close> from \<^verbatim>\<open>frozenset\<close> of terms to the set of
  document ids; it is only ever iterated, so it is the list of its items. The inverted
  index maps a term to its posting list of (document id, term frequency) pairs (the
  field \<^verbatim>\<open>'posting_list'\<close> of the entry).
\<close>

type_synonym termsets = "(string list \<times> int fset) list"
type_synonym posting_list = "(int \<times> int) list"
type_synonym inv_index = "string \<rightharpoonup> posting_list"

definition ts_idf :: "int \<Rightarrow> int fset \<Rightarrow> error + real" where
  "ts_idf N value =
     bind (py_div (of_int N) (real (fcard value))) (\<lambda>q.
     bind (math_log2 (1 + q)) (\<lambda>l.
     Inr (np_round l 3)))"

definition calculate_ts_idf :: "termsets \<Rightarrow> int \<Rightarrow> error + real list" where
  "calculate_ts_idf termsets N = mapM (\<lambda>(termset, value). ts_idf N value) termsets"

text \<open>A two-dimensional numpy array: its shape and its rows.\<close>

record ndarray =
  nrows :: nat
  ncols :: nat
  cells :: "real list list"

text \<open>The rows of an array agree with its shape.\<close>

definition well_formed :: "ndarray \<Rightarrow> bool" where
  "well_formed m \<longleftrightarrow>
     length (cells m) = nrows m \<and> list_all (\<lambda>row. length row = ncols m) (cells m)"

definition zeros :: "nat \<Rightarrow> nat \<Rightarrow> ndarray" where
  "zeros r c = \<lparr>nrows = r, ncols = c, cells = replicate r (replicate c 0)\<rparr>"

text \<open>
  An index along an axis of length \<open>n\<close>: a negative index counts from the end, anything
  outside \<open>- n \<dots> n - 1\<close> raises \<^verbatim>\<open>IndexError\<close>.
\<close>

definition np_index :: "nat \<Rightarrow> int \<Rightarrow> error + nat" where
  "np_index n j =
     (if 0 \<le> j \<and> j < int n then Inr (nat j)
      else if - int n \<le> j \<and> j < 0 then Inr (nat (int n + j))
      else Inl IndexError)"

text \<open>
  The dictionary \<^verbatim>\<open>temp\<close> in insertion order.
  \<^verbatim>\<open>if id in temp: temp[id] += [tf]  else: temp[id] = [tf]\<close>
\<close>

fun temp_add :: "(int \<times> int list) list \<Rightarrow> int \<Rightarrow> int \<Rightarrow> (int \<times> int list) list" where
  "temp_add [] ident tf = [(ident, [tf])]"
| "temp_add ((k, tfs) # rest) ident tf =
     (if k = ident then (k, tfs @ [tf]) # rest else (k, tfs) # temp_add rest ident tf)"

text \<open>\<^verbatim>\<open>for id, tf in post_list: if id in docs: ...\<close>\<close>

fun scan_postings ::
  "int fset \<Rightarrow> posting_list \<Rightarrow> (int \<times> int list) list \<Rightarrow> (int \<times> int list) list" where
  "scan_postings docs [] temp = temp"
| "scan_postings docs ((ident, tf) # rest) temp =
     scan_postings docs rest (if ident |\<in>| docs then temp_add temp ident tf else temp)"

text \<open>\<^verbatim>\<open>for term in terms: post_list = inv_index[term]['posting_list'] ...\<close>\<close>

fun scan_terms ::
  "inv_index \<Rightarrow> int fset \<Rightarrow> string list \<Rightarrow> (int \<times> int list) list
     \<Rightarrow> error + (int \<times> int list) list" where
  "scan_terms inv_index docs [] temp = Inr temp"
| "scan_terms inv_index docs (term # terms) temp =
     (case inv_index term of
        None \<Rightarrow> Inl KeyError
      | Some post_list \<Rightarrow> scan_terms inv_index docs terms (scan_postings docs post_list temp))"

text \<open>\<^verbatim>\<open>min(tfs)\<close> raises \<^verbatim>\<open>ValueError\<close> on an empty list.\<close>

definition py_min :: "int list \<Rightarrow> error + int" where
  "py_min tfs = (if tfs = [] then Inl ValueError else Inr (min_list tfs))"

text \<open>\<^verbatim>\<open>round((1 + log2(min(tfs))), 3)\<close>\<close>

definition tsf_weight :: "int list \<Rightarrow> error + real" where
  "tsf_weight tfs =
     bind (py_min tfs) (\<lambda>m.
     bind (math_log2 (of_int m)) (\<lambda>l.
     Inr (np_round (1 + l) 3)))"

text \<open>
  \<^verbatim>\<open>for id, tfs in temp.items(): tf_ij[i, id-1] = round(...)\<close>: the right-hand side is
  evaluated before the cell is addressed.
\<close>

fun assign_cells :: "nat \<Rightarrow> (int \<times> int list) list \<Rightarrow> ndarray \<Rightarrow> error + ndarray" where
  "assign_cells i [] tf_ij = Inr tf_ij"
| "assign_cells i ((ident, tfs) # rest) tf_ij =
     bind (tsf_weight tfs) (\<lambda>w.
     bind (np_index (nrows tf_ij) (int i)) (\<lambda>r.
     bind (np_index (ncols tf_ij) (ident - 1)) (\<lambda>c.
     assign_cells i rest (tf_ij\<lparr>cells := (cells tf_ij)[r := (cells tf_ij ! r)[c := w]]\<rparr>))))"

text \<open>\<^verbatim>\<open>for i, (termset, docs) in enumerate(termsets.items()): ...\<close>\<close>

fun tsf_loop :: "inv_index \<Rightarrow> nat \<Rightarrow> termsets \<Rightarrow> ndarray \<Rightarrow> error + ndarray" where
  "tsf_loop inv_index i [] tf_ij = Inr tf_ij"
| "tsf_loop inv_index i ((termset, docs) # rest) tf_ij =
     bind (scan_terms inv_index docs termset []) (\<lambda>temp.
     bind (assign_cells i temp tf_ij) (\<lambda>tf_ij'.
     tsf_loop inv_index (i + 1) rest tf_ij'))"

text \<open>\<^verbatim>\<open>zeros((len(termsets), N))\<close> raises \<^verbatim>\<open>ValueError\<close> on a negative dimension.\<close>

definition calculate_tsf :: "termsets \<Rightarrow> inv_index \<Rightarrow> int \<Rightarrow> error + ndarray" where
  "calculate_tsf termsets inv_index N =
     (if N < 0 then Inl ValueError
      else tsf_loop inv_index 0 termsets (zeros (length termsets) (nat N)))"

text \<open>
  \<^verbatim>\<open>calculate_tnw\<close> iterates the keys of the occurrence map; a term without a weight
  is skipped.
\<close>

fun tnw_terms :: "(string \<rightharpoonup> real) \<Rightarrow> string list \<Rightarrow> real \<Rightarrow> real" where
  "tnw_terms nwk [] tnw = tnw"
| "tnw_terms nwk (term # terms) tnw =
     tnw_terms nwk terms (case nwk term of Some w \<Rightarrow> tnw * w | None \<Rightarrow> tnw)"

definition calculate_tnw :: "termsets \<Rightarrow> (string \<rightharpoonup> real) \<Rightarrow> real list" where
  "calculate_tnw termsets nwk =
     map (\<lambda>(termset, docs). np_round (tnw_terms nwk termset 1) 3) termsets"

subsection \<open>The data \<^verbatim>\<open>calculate_tsf\<close> is meant for\<close>

text \<open>
  The frequency of term \<open>t\<close> in document \<open>d\<close> as the inverted index records it: the
  frequency of the first pair of the posting list of \<open>t\<close> with document-id \<open>d\<close>, and 0
  when the term or the document is absent.
\<close>

definition term_frequency :: "inv_index \<Rightarrow> string \<Rightarrow> int \<Rightarrow> int" where
  "term_frequency idx t d =
     (case idx t of
        None \<Rightarrow> 0
      | Some pl \<Rightarrow> (case map_of pl d of None \<Rightarrow> 0 | Some tf \<Rightarrow> tf))"

text \<open>
  An inverted index is consistent with a termset occurrence map of a collection of \<open>N\<close>
  documents when every termset has a term, its documents are document-ids \<open>1..N\<close>, and
  every one of its terms has a posting list with at most one pair per document, positive
  frequencies, and a pair for each document of the termset.
\<close>

definition consistent_termset :: "inv_index \<Rightarrow> int \<Rightarrow> string list \<times> int fset \<Rightarrow> bool" where
  "consistent_termset idx N = (\<lambda>(termset, docs).
     termset \<noteq> [] \<and>
     (\<forall>d |\<in>| docs. 1 \<le> d \<and> d \<le> N) \<and>
     (\<forall>t \<in> set termset.
        case idx t of
          None \<Rightarrow> False
        | Some pl \<Rightarrow> distinct (map fst pl) \<and> (\<forall>(d, tf) \<in> set pl. 0 < tf) \<and>
            (\<forall>d |\<in>| docs. d \<in> fst ` set pl)))"

definition consistent :: "termsets \<Rightarrow> inv_index \<Rightarrow> int \<Rightarrow> bool" where
  "consistent termsets idx N \<longleftrightarrow> (\<forall>ts \<in> set termsets. consistent_termset idx N ts)"

text \<open>
  Auxiliary functions of the proofs: the weight of a list of frequencies, a row after
  the assignments out of \<^verbatim>\<open>temp\<close>, the same row read off the index, and the frequencies
  that a scan of a posting list collects for document \<open>k\<close>.
\<close>

definition tsf_value :: "int list \<Rightarrow> real" where
  "tsf_value tfs = np_round (1 + log 2 (of_int (min_list tfs))) 3"

definition assigned_row :: "(int \<times> int list) list \<Rightarrow> real list \<Rightarrow> real list" where
  "assigned_row temp row =
     map (\<lambda>j. case map_of temp (int j + 1) of Some tfs \<Rightarrow> tsf_value tfs | None \<Rightarrow> row ! j)
       [0..<length row]"

definition new_row :: "inv_index \<Rightarrow> string list \<times> int fset \<Rightarrow> real list \<Rightarrow> real list" where
  "new_row idx = (\<lambda>(termset, docs) row.
     map (\<lambda>j. if (int j + 1) |\<in>| docs
              then tsf_value (map (\<lambda>t. term_frequency idx t (int j + 1)) termset)
              else row ! j) [0..<length row])"

definition hits :: "int fset \<Rightarrow> posting_list \<Rightarrow> int \<Rightarrow> int list" where
  "hits docs ps k = map snd (filter (\<lambda>(d, tf). d = k \<and> d |\<in>| docs) ps)"

subsection \<open>The duplicates in \<^verbatim>\<open>BaseIRModel\<close>\<close>








section \<open>Scorer: \<^verbatim>\<open>cosine_similarity\<close>, \<^verbatim>\<open>evaluate_sim\<close>\<close>


text \<open>
  \<^verbatim>\<open>numpy.linalg.norm\<close> of a vector: the Euclidean norm, here on exact reals. It is the
  norm of the second embedding below wherever no square underflows and the sum of squares
  does not overflow.
\<close>

definition norm_vec :: "real list \<Rightarrow> real" where
  "norm_vec u = sqrt (sum_list (map (\<lambda>x. x * x) u))"


definition all_zero :: "real list \<Rightarrow> bool" where
  "all_zero u = list_all (\<lambda>x. x = 0) u"







subsection \<open>The scorer within the range of \<^verbatim>\<open>float64\<close>\<close>

text \<open>
  Whether the denominator of \<^verbatim>\<open>cosine_similarity\<close> can be zero depends on the range of
  \<^verbatim>\<open>float64\<close>: a product closer to 0 than to the least positive double is 0. For that
  question the function is embedded a second time, over values that are a real number, an
  infinity or \<^verbatim>\<open>nan\<close>. The range is that of \<^verbatim>\<open>float64\<close> under rounding to nearest, ties to
  even; the precision inside the range stays idealised, and the two zeros are one.
\<close>

datatype f64 = Num real | PosInf | NegInf | NaN

text \<open>
  A result of magnitude \<open>2 ^ 1024 - 2 ^ 970\<close> or more, the largest double plus half a unit
  in its last place, is rounded to an infinity.
\<close>

definition f64_range :: "real \<Rightarrow> f64" where
  "f64_range x =
     (if 2 ^ 1024 - 2 ^ 970 \<le> x then PosInf
      else if x \<le> - (2 ^ 1024 - 2 ^ 970) then NegInf
      else Num x)"

text \<open>
  A product or a quotient of magnitude \<open>1 / 2 ^ 1075\<close> or less, half the least positive
  double, is rounded to 0. A sum of two doubles is a multiple of the least positive double
  and is never rounded to 0, so a sum is only checked against the upper end of the range.
\<close>

definition f64_round :: "real \<Rightarrow> f64" where
  "f64_round x = (if \<bar>x\<bar> \<le> 1 / 2 ^ 1075 then Num 0 else f64_range x)"

text \<open>The arithmetic of IEEE 754 on the special values.\<close>

fun f64_mul :: "f64 \<Rightarrow> f64 \<Rightarrow> f64" where
  "f64_mul (Num x) (Num y) = f64_round (x * y)"
| "f64_mul NaN b = NaN"
| "f64_mul a NaN = NaN"
| "f64_mul PosInf (Num y) = (if y = 0 then NaN else if 0 < y then PosInf else NegInf)"
| "f64_mul NegInf (Num y) = (if y = 0 then NaN else if 0 < y then NegInf else PosInf)"
| "f64_mul (Num x) PosInf = (if x = 0 then NaN else if 0 < x then PosInf else NegInf)"
| "f64_mul (Num x) NegInf = (if x = 0 then NaN else if 0 < x then NegInf else PosInf)"
| "f64_mul PosInf PosInf = PosInf"
| "f64_mul PosInf NegInf = NegInf"
| "f64_mul NegInf PosInf = NegInf"
| "f64_mul NegInf NegInf = PosInf"

fun f64_add :: "f64 \<Rightarrow> f64 \<Rightarrow> f64" where
  "f64_add (Num x) (Num y) = f64_range (x + y)"
| "f64_add NaN b = NaN"
| "f64_add a NaN = NaN"
| "f64_add PosInf NegInf = NaN"
| "f64_add NegInf PosInf = NaN"
| "f64_add PosInf b = PosInf"
| "f64_add a PosInf = PosInf"
| "f64_add NegInf b = NegInf"
| "f64_add a NegInf = NegInf"

fun f64_sqrt :: "f64 \<Rightarrow> f64" where
  "f64_sqrt (Num x) = (if x < 0 then NaN else Num (sqrt x))"
| "f64_sqrt PosInf = PosInf"
| "f64_sqrt NegInf = NaN"
| "f64_sqrt NaN = NaN"

text \<open>
  Division by the number 0 gives \<^verbatim>\<open>nan\<close> for \<open>0 / 0\<close> and otherwise an infinity with the
  sign of the dividend: the divisor of \<^verbatim>\<open>cosine_similarity\<close> is a product of norms, so a
  zero there is \<^verbatim>\<open>+0.0\<close>.
\<close>

fun f64_div :: "f64 \<Rightarrow> f64 \<Rightarrow> f64" where
  "f64_div (Num x) (Num y) =
     (if y = 0 then (if x = 0 then NaN else if 0 < x then PosInf else NegInf)
      else f64_round (x / y))"
| "f64_div NaN b = NaN"
| "f64_div a NaN = NaN"
| "f64_div (Num x) b = Num 0"
| "f64_div PosInf (Num y) = (if 0 \<le> y then PosInf else NegInf)"
| "f64_div NegInf (Num y) = (if 0 \<le> y then NegInf else PosInf)"
| "f64_div a b = NaN"

text \<open>
  \<^verbatim>\<open>numpy.dot\<close> of two vectors accumulates the products of the entries;
  \<^verbatim>\<open>numpy.linalg.norm\<close> of a real vector \<open>x\<close> is \<^verbatim>\<open>sqrt(x.dot(x))\<close>.
\<close>

fun dot_acc :: "f64 \<Rightarrow> (real \<times> real) list \<Rightarrow> f64" where
  "dot_acc acc [] = acc"
| "dot_acc acc ((x, y) # ps) = dot_acc (f64_add acc (f64_mul (Num x) (Num y))) ps"

definition dot_f64 :: "real list \<Rightarrow> real list \<Rightarrow> error + f64" where
  "dot_f64 u v =
     (if length u \<noteq> length v then Inl ValueError else Inr (dot_acc (Num 0) (zip u v)))"

definition norm_f64 :: "real list \<Rightarrow> f64" where
  "norm_f64 u = f64_sqrt (dot_acc (Num 0) (zip u u))"

text \<open>The divisor \<^verbatim>\<open>norm(u)*norm(v)\<close> and the function itself.\<close>

definition denominator_f64 :: "real list \<Rightarrow> real list \<Rightarrow> f64" where
  "denominator_f64 u v = f64_mul (norm_f64 u) (norm_f64 v)"

definition cosine_similarity_f64 :: "real list \<Rightarrow> real list \<Rightarrow> error + f64" where
  "cosine_similarity_f64 u v =
     (if all_zero u \<or> all_zero v then Inr (Num 0)
      else bind (dot_f64 u v) (\<lambda>d. Inr (f64_div d (denominator_f64 u v))))"

text \<open>A lower bound on a value that is a number or \<open>+inf\<close>; an auxiliary of the proofs.\<close>

definition at_least :: "real \<Rightarrow> f64 \<Rightarrow> bool" where
  "at_least c a = (case a of Num r \<Rightarrow> c \<le> r | PosInf \<Rightarrow> True | NegInf \<Rightarrow> False | NaN \<Rightarrow> False)"

section \<open>Properties of the evaluator\<close>

lemma bind_Inr [simp]: "bind (Inr x) f = f x"
  by (simp add: bind_def)

lemma bind_Inl [simp]: "bind (Inl e) f = Inl e"
  by (simp add: bind_def)

lemma bind_eq_Inr: "bind m f = Inr y \<longleftrightarrow> (\<exists>x. m = Inr x \<and> f x = Inr y)"
  by (cases m) simp_all

lemma fcard_pos_of_member: "d |\<in>| A \<Longrightarrow> 0 < fcard A"
  by (cases "fcard A = 0") auto

lemma spec_hit_positions_Cons:
  "spec_hit_positions (x # xs) rel =
     (if x |\<in>| rel then [0] else []) @ map Suc (spec_hit_positions xs rel)"
proof -
  have "[0..<length (x # xs)] = 0 # map Suc [0..<length xs]"
    by (simp add: upt_conv_Cons map_Suc_upt del: upt_Suc)
  then show ?thesis
    by (simp add: spec_hit_positions_def filter_map comp_def)
qed

lemma spec_hits_Cons_0: "spec_hits (x # xs) rel 0 = (if x |\<in>| rel then 1 else 0)"
  by (simp add: spec_hits_def)

lemma spec_hits_Cons_Suc:
  "spec_hits (x # xs) rel (Suc i) = (if x |\<in>| rel then 1 else 0) + spec_hits xs rel i"
  by (simp add: spec_hits_def)

lemma pr_loop_general:
  "0 < retrieved s \<Longrightarrow>
   pr_loop rel xs s =
     Inr (s\<lparr>cnt := cnt s + length (filter (\<lambda>d. d |\<in>| rel) xs),
            retrieved := retrieved s + length xs,
            recall := recall s @ map (\<lambda>i. real (cnt s + spec_hits xs rel i) / real (fcard rel))
                                   (spec_hit_positions xs rel),
            precision := precision s @ map (\<lambda>i. real (cnt s + spec_hits xs rel i) / real (retrieved s + i))
                                   (spec_hit_positions xs rel)\<rparr>)"
proof (induction xs arbitrary: s)
  case Nil
  then show ?case by (simp add: spec_hit_positions_def)
next
  case (Cons x xs)
  show ?case
  proof (cases "x |\<in>| rel")
    case True
    then have pos: "0 < fcard rel" by (rule fcard_pos_of_member)
    let ?s' = "s\<lparr>cnt := cnt s + 1, retrieved := retrieved s + 1,
                 recall := recall s @ [real (cnt s + 1) / real (fcard rel)],
                 precision := precision s @ [real (cnt s + 1) / real (retrieved s)]\<rparr>"
    have step: "pr_step rel x s = Inr ?s'"
      using True pos Cons.prems by (auto simp add: pr_step_def py_div_def Let_def)
    have r': "0 < retrieved ?s'" by simp
    have a: "pr_loop rel (x # xs) s = pr_loop rel xs ?s'"
      by (simp only: pr_loop.simps step bind_Inr)
    show ?thesis
      apply (subst a)
      apply (subst Cons.IH [OF r'])
      using True apply (simp add: spec_hit_positions_Cons spec_hits_Cons_0
          spec_hits_Cons_Suc comp_def add.commute add.left_commute)
      done
  next
    case False
    let ?s' = "s\<lparr>retrieved := retrieved s + 1\<rparr>"
    have step: "pr_step rel x s = Inr ?s'"
      using False by (simp add: pr_step_def)
    have r': "0 < retrieved ?s'" by simp
    have a: "pr_loop rel (x # xs) s = pr_loop rel xs ?s'"
      by (simp only: pr_loop.simps step bind_Inr)
    show ?thesis
      apply (subst a)
      apply (subst Cons.IH [OF r'])
      using False apply (simp add: spec_hit_positions_Cons
          spec_hits_Cons_Suc comp_def add.commute add.left_commute)
      done
  qed
qed

lemma pr_loop_init:
  "pr_loop rel xs pr_init =
     Inr \<lparr>cnt = length (filter (\<lambda>d. d |\<in>| rel) xs), retrieved = 1 + length xs,
          recall = spec_recalls xs rel, precision = spec_precisions xs rel\<rparr>"
proof -
  have "0 < retrieved pr_init" by (simp add: pr_init_def)
  from pr_loop_general [OF this, of rel xs] show ?thesis
    by (simp add: pr_init_def spec_recalls_def spec_precisions_def)
qed

lemma spec_hit_positions_empty_iff:
  "spec_hit_positions xs rel = [] \<longleftrightarrow> (\<forall>d \<in> set xs. \<not> d |\<in>| rel)"
  by (auto simp: spec_hit_positions_def filter_empty_conv all_set_conv_all_nth)

lemma calc_precision_recall_cases:
  "calc_precision_recall xs rel =
     (if \<forall>d \<in> set xs. \<not> d |\<in>| rel then Inl ZeroDivisionError
      else Inr (average (spec_precisions xs rel), average (spec_recalls xs rel)))"
  using spec_hit_positions_empty_iff [of xs rel]
  by (simp add: calc_precision_recall_def pr_loop_init py_div_def average_def
      spec_precisions_def spec_recalls_def)

text \<open>
  Claim C1. Whenever at least one ranked document is relevant, \<^verbatim>\<open>calc_precision_recall\<close>
  returns the pair of the average of hits/position and the average of hits/|relevant|,
  both taken over exactly the positions whose document is relevant, where hits is the
  running count of relevant documents up to that position. The ranking need not even be
  duplicate-free for this.
\<close>

theorem calc_precision_recall_averages:
  assumes "\<exists>d \<in> set ranked. d |\<in>| relevant"
  shows "calc_precision_recall ranked relevant =
           Inr (average (spec_precisions ranked relevant), average (spec_recalls ranked relevant))"
  using assms by (simp add: calc_precision_recall_cases)

theorem calc_precision_recall_averages_witness:
  "(\<exists>d \<in> set [3, 1, 2, 5 :: nat]. d |\<in>| {|1, 5, 7|}) \<and>
   calc_precision_recall [3, 1, 2, 5 :: nat] {|1, 5, 7|} = Inr (1 / 2, 1 / 2)"
  using calc_precision_recall_averages [of "[3, 1, 2, 5 :: nat]" "{|1, 5, 7|}"]
  by (simp add: average_def spec_precisions_def spec_recalls_def spec_hit_positions_def
      spec_hits_def fcard_finsert_if)

text \<open>
  Claim C9. \<^verbatim>\<open>calc_precision_recall\<close> ends in a division by zero exactly when no
  element of the ranking belongs to the relevance set; an empty relevance set is only one
  way for that to happen.
\<close>

theorem calc_precision_recall_zero_division_iff:
  "calc_precision_recall ranked relevant = Inl ZeroDivisionError \<longleftrightarrow>
     (\<forall>d \<in> set ranked. \<not> d |\<in>| relevant)"
  by (simp add: calc_precision_recall_cases)

theorem calc_precision_recall_zero_division_iff_witness:
  "calc_precision_recall [4, 6 :: nat] {|5|} = Inl ZeroDivisionError \<and>
   calc_precision_recall [4, 5 :: nat] {|5|} \<noteq> Inl ZeroDivisionError"
  using calc_precision_recall_zero_division_iff [of "[4, 6 :: nat]" "{|5|}"]
    calc_precision_recall_zero_division_iff [of "[4, 5 :: nat]" "{|5|}"]
  by simp

text \<open>
  Claim C4, as stated, does not hold: the failure on an empty relevance set is Python's
  \<^verbatim>\<open>ZeroDivisionError\<close> of the final averaging, and a non-empty relevance set that
  shares no document with the ranking fails in the very same way.
\<close>

theorem empty_relevance_error_not_exclusive:
  "calc_precision_recall [1 :: nat] {||} = Inl ZeroDivisionError \<and>
   calc_precision_recall [1 :: nat] {|2|} = Inl ZeroDivisionError"
  by (simp add: calc_precision_recall_cases)

text \<open>
  Claim C4, amended. With an empty relevance set \<^verbatim>\<open>calc_precision_recall\<close> fails with
  \<^verbatim>\<open>ZeroDivisionError\<close> for every ranking, and it does not fail with that error when
  the relevance set contains at least one ranked document.
\<close>

theorem calc_precision_recall_empty_relevance:
  "calc_precision_recall ranked {||} = Inl ZeroDivisionError \<and>
   ((\<exists>d \<in> set ranked. d |\<in>| relevant) \<longrightarrow>
      calc_precision_recall ranked relevant \<noteq> Inl ZeroDivisionError)"
  by (simp add: calc_precision_recall_cases)

theorem calc_precision_recall_empty_relevance_witness:
  "calc_precision_recall [2, 1 :: nat] {||} = Inl ZeroDivisionError \<and>
   (\<exists>d \<in> set [2, 1 :: nat]. d |\<in>| {|2|}) \<and>
   calc_precision_recall [2, 1 :: nat] {|2|} \<noteq> Inl ZeroDivisionError"
  using calc_precision_recall_empty_relevance [of "[2, 1 :: nat]" "{|2|}"] by simp

lemma spec_hits_le_position: "spec_hits xs rel i \<le> i + 1"
proof -
  have "spec_hits xs rel i \<le> length (take (i + 1) xs)"
    unfolding spec_hits_def by (rule length_filter_le)
  then show ?thesis by simp
qed

lemma spec_hits_le_fcard:
  assumes "distinct xs"
  shows "spec_hits xs rel i \<le> fcard rel"
proof -
  let ?h = "filter (\<lambda>d. d |\<in>| rel) (take (i + 1) xs)"
  have "distinct ?h" using assms by simp
  then have "length ?h = card (set ?h)" by (rule distinct_card [symmetric])
  also have "\<dots> \<le> card (fset rel)"
    by (rule card_mono) auto
  finally show ?thesis by (simp add: spec_hits_def fcard.rep_eq)
qed

lemma spec_hits_mono: "i \<le> j \<Longrightarrow> spec_hits xs rel i \<le> spec_hits xs rel j"
proof -
  assume "i \<le> j"
  then obtain k where j: "j = i + k" by (auto simp: le_iff_add)
  have "take (j + 1) xs = take (i + 1) xs @ take k (drop (i + 1) xs)"
    using take_add [of "Suc i" k xs] by (simp add: j)
  then show ?thesis by (simp add: spec_hits_def)
qed

lemma sorted_spec_hit_positions: "sorted (spec_hit_positions xs rel)"
  by (simp add: spec_hit_positions_def sorted_wrt_filter)

lemma sorted_spec_recalls: "sorted (spec_recalls xs rel)"
proof -
  have "sorted_wrt (\<lambda>i j. real (spec_hits xs rel i) / real (fcard rel)
            \<le> real (spec_hits xs rel j) / real (fcard rel)) (spec_hit_positions xs rel)"
    by (rule sorted_wrt_mono_rel [OF _ sorted_spec_hit_positions])
       (simp add: spec_hits_mono divide_right_mono)
  then show ?thesis by (simp add: spec_recalls_def sorted_map)
qed

text \<open>
  Claim C8. For a ranking without repeated documents the loop of
  \<^verbatim>\<open>calc_precision_recall\<close> finishes, every precision value it recorded and every
  recall value it recorded lies between 0 and 1, and the recorded recall values are
  non-decreasing in rank order.
\<close>

theorem recorded_values_bounded:
  assumes "distinct ranked"
  shows "\<exists>s. pr_loop relevant ranked pr_init = Inr s \<and>
           (\<forall>p \<in> set (precision s). 0 \<le> p \<and> p \<le> 1) \<and>
           (\<forall>r \<in> set (recall s). 0 \<le> r \<and> r \<le> 1) \<and>
           sorted (recall s)"
proof -
  have p: "\<forall>p \<in> set (spec_precisions ranked relevant). 0 \<le> p \<and> p \<le> 1"
  proof
    fix p assume "p \<in> set (spec_precisions ranked relevant)"
    then obtain i where "p = real (spec_hits ranked relevant i) / real (i + 1)"
      by (auto simp: spec_precisions_def)
    moreover have "real (spec_hits ranked relevant i) \<le> real (i + 1)"
      using spec_hits_le_position [of ranked relevant i] by (simp only: of_nat_le_iff)
    ultimately show "0 \<le> p \<and> p \<le> 1" by (simp add: divide_le_eq_1)
  qed
  have r: "\<forall>r \<in> set (spec_recalls ranked relevant). 0 \<le> r \<and> r \<le> 1"
  proof
    fix r assume "r \<in> set (spec_recalls ranked relevant)"
    then obtain i where i: "r = real (spec_hits ranked relevant i) / real (fcard relevant)"
      by (auto simp: spec_recalls_def)
    have le: "real (spec_hits ranked relevant i) \<le> real (fcard relevant)"
      using spec_hits_le_fcard [OF assms, of relevant i] by (simp only: of_nat_le_iff)
    show "0 \<le> r \<and> r \<le> 1"
    proof (cases "real (fcard relevant) = 0")
      case True
      then show ?thesis by (simp only: i div_by_0) simp
    next
      case False
      then have "0 < real (fcard relevant)" by (simp del: fcard_0_eq)
      then show ?thesis using le by (simp only: i divide_le_eq_1_pos) simp
    qed
  qed
  show ?thesis
    using p r sorted_spec_recalls [of ranked relevant] by (simp add: pr_loop_init)
qed

theorem recorded_values_bounded_witness:
  "distinct [3, 1, 2, 5 :: nat] \<and>
   (\<exists>s. pr_loop {|1, 5, 7|} [3, 1, 2, 5 :: nat] pr_init = Inr s \<and>
      (\<forall>p \<in> set (precision s). 0 \<le> p \<and> p \<le> 1) \<and>
      (\<forall>r \<in> set (recall s). 0 \<le> r \<and> r \<le> 1) \<and>
      sorted (recall s))"
  using recorded_values_bounded [of "[3, 1, 2, 5 :: nat]" "{|1, 5, 7|}"] by simp

section \<open>Properties of the scorer and of the weight vectors\<close>



lemma f64_huge_pos: "(0 :: real) < 2 ^ 1024 - 2 ^ 970"
  by simp

lemma at_least_range: "c \<le> x \<Longrightarrow> 0 \<le> c \<Longrightarrow> at_least c (f64_range x)"
  using f64_huge_pos by (auto simp: f64_range_def at_least_def simp del: power_strict_increasing_iff)

lemma at_least_round_nonneg: "0 \<le> x \<Longrightarrow> at_least 0 (f64_round x)"
  by (simp add: f64_round_def at_least_range) (simp add: at_least_def)

lemma at_least_round:
  "c \<le> x \<Longrightarrow> 1 / 2 ^ 1075 < c \<Longrightarrow> at_least c (f64_round x)"
  by (auto simp: f64_round_def intro!: at_least_range)

lemma at_least_add_left:
  "at_least c a \<Longrightarrow> at_least 0 b \<Longrightarrow> 0 \<le> c \<Longrightarrow> at_least c (f64_add a b)"
  by (cases a; cases b) (auto simp: at_least_def [of _ "Num _"] at_least_def [of _ NaN] at_least_def [of _ PosInf] at_least_def [of _ NegInf] intro!: at_least_range)

lemma at_least_add_right:
  "at_least 0 a \<Longrightarrow> at_least c b \<Longrightarrow> 0 \<le> c \<Longrightarrow> at_least c (f64_add a b)"
  by (cases a; cases b) (auto simp: at_least_def [of _ "Num _"] at_least_def [of _ NaN] at_least_def [of _ PosInf] at_least_def [of _ NegInf] intro!: at_least_range)

lemma squares_at_least:
  "at_least c acc \<Longrightarrow> 0 \<le> c \<Longrightarrow> at_least c (dot_acc acc (zip u u))"
proof (induction u arbitrary: acc)
  case Nil
  then show ?case by simp
next
  case (Cons x u)
  have "at_least c (f64_add acc (f64_round (x * x)))"
    using Cons.prems by (intro at_least_add_left at_least_round_nonneg) simp_all
  then show ?case using Cons.prems by (simp add: Cons.IH)
qed

lemma small_square: "1 / 2 ^ 537 \<le> \<bar>x\<bar> \<Longrightarrow> 1 / 2 ^ 1074 \<le> x * (x :: real)"
proof -
  assume a: "1 / 2 ^ 537 \<le> \<bar>x\<bar>"
  have "(1 / 2 ^ 537) * (1 / 2 ^ 537) \<le> \<bar>x\<bar> * \<bar>x\<bar>"
    using a by (intro mult_mono) simp_all
  moreover have "(1 / 2 ^ 537) * (1 / 2 ^ 537) = (1 / 2 ^ 1074 :: real)"
    by (simp add: power_add [symmetric])
  ultimately show ?thesis by (simp add: abs_mult_self_eq del: abs_mult_self_eq)
qed

lemma squares_entry:
  "at_least 0 acc \<Longrightarrow> x \<in> set u \<Longrightarrow> 1 / 2 ^ 537 \<le> \<bar>x\<bar> \<Longrightarrow>
   at_least (1 / 2 ^ 1074) (dot_acc acc (zip u u))"
proof (induction u arbitrary: acc)
  case Nil
  then show ?case by simp
next
  case (Cons y u)
  show ?case
  proof (cases "x = y")
    case True
    have "at_least (1 / 2 ^ 1074) (f64_round (y * y))"
      using small_square [of y] Cons.prems(3) True by (intro at_least_round) simp_all
    then have "at_least (1 / 2 ^ 1074) (f64_add acc (f64_round (y * y)))"
      using Cons.prems(1) by (intro at_least_add_right) simp_all
    then show ?thesis by (simp add: squares_at_least)
  next
    case False
    have a: "at_least 0 (f64_add acc (f64_round (y * y)))"
      using Cons.prems(1) by (intro at_least_add_left at_least_round_nonneg) simp_all
    have m: "x \<in> set u" using Cons.prems(2) False by simp
    have "at_least (1 / 2 ^ 1074) (dot_acc (f64_add acc (f64_round (y * y))) (zip u u))"
      using a m Cons.prems(3) by (rule Cons.IH)
    then show ?thesis by simp
  qed
qed

lemma norm_f64_at_least:
  assumes "x \<in> set u" and "1 / 2 ^ 537 \<le> \<bar>x\<bar>"
  shows "at_least (1 / 2 ^ 537) (norm_f64 u)"
proof -
  have z: "at_least 0 (Num 0)" by (simp add: at_least_def)
  have s: "at_least (1 / 2 ^ 1074) (dot_acc (Num 0) (zip u u))"
    using z assms by (rule squares_entry)
  have q: "1 / 2 ^ 537 \<le> sqrt r" if "1 / 2 ^ 1074 \<le> r" for r :: real
  proof -
    have "(1 / 2 ^ 537)\<^sup>2 = (1 / 2 ^ 1074 :: real)"
      by (simp add: power_divide power_mult [symmetric])
    then show ?thesis using that by (intro real_le_rsqrt) simp
  qed
  show ?thesis
    using s q by (cases "dot_acc (Num 0) (zip u u)") (auto simp: norm_f64_def at_least_def)
qed

lemma denominator_f64_at_least:
  assumes "at_least (1 / 2 ^ 537) a" and "at_least (1 / 2 ^ 537) b"
  shows "at_least (1 / 2 ^ 1074) (f64_mul a b)"
proof (cases a)
  case (Num r)
  note a = this
  show ?thesis
  proof (cases b)
    case (Num s)
    have "(1 / 2 ^ 537) * (1 / 2 ^ 537) \<le> r * s"
      using assms a Num by (intro mult_mono) (simp_all add: at_least_def)
    moreover have "(1 / 2 ^ 537) * (1 / 2 ^ 537) = (1 / 2 ^ 1074 :: real)"
      by (simp add: power_add [symmetric])
    ultimately have "1 / 2 ^ 1074 \<le> r * s" by simp
    then have "at_least (1 / 2 ^ 1074) (f64_round (r * s))"
      by (intro at_least_round) simp_all
    then show ?thesis by (simp add: a Num)
  next
    case PosInf
    have "0 < r" using assms(1) a by (simp add: at_least_def)
    then show ?thesis by (simp add: a PosInf at_least_def)
  qed (use assms in \<open>simp_all add: at_least_def\<close>)
next
  case PosInf
  show ?thesis
  proof (cases b)
    case (Num s)
    have "0 < s" using assms(2) Num by (simp add: at_least_def)
    then show ?thesis by (simp add: PosInf Num at_least_def)
  qed (use assms PosInf in \<open>simp_all add: at_least_def\<close>)
qed (use assms in \<open>simp_all add: at_least_def\<close>)

lemma at_least_pos_nonzero: "at_least c a \<Longrightarrow> 0 < c \<Longrightarrow> a \<noteq> Num 0"
  by (auto simp: at_least_def)

text \<open>
  Claim C6, as stated, does not hold of \<^verbatim>\<open>float64\<close> vectors: the guard looks at the
  entries, the division at the norms. The vectors \<open>u = v = [2 ^ (- 600)]\<close> are of equal
  length and not all-zero, yet the square of the entry underflows to 0, both norms are 0,
  and the division is reached with the denominator 0; its result is \<^verbatim>\<open>nan\<close>.
\<close>

theorem cosine_similarity_f64_underflow:
  "length [1 / 2 ^ 600 :: real] = length [1 / 2 ^ 600 :: real] \<and>
   \<not> all_zero [1 / 2 ^ 600] \<and>
   denominator_f64 [1 / 2 ^ 600] [1 / 2 ^ 600] = Num 0 \<and>
   cosine_similarity_f64 [1 / 2 ^ 600] [1 / 2 ^ 600] = Inr NaN"
proof -
  have m: "f64_round ((1 / 2 ^ 600) * (1 / 2 ^ 600)) = Num 0"
    by (simp add: f64_round_def power_add [symmetric])
  have s: "dot_acc (Num 0) (zip [1 / 2 ^ 600] [1 / 2 ^ 600]) = Num 0"
    using m f64_huge_pos by (simp add: f64_range_def del: power_strict_increasing_iff)
  have n: "norm_f64 [1 / 2 ^ 600] = Num 0"
    unfolding norm_f64_def s by simp
  have d: "denominator_f64 [1 / 2 ^ 600] [1 / 2 ^ 600] = Num 0"
    unfolding denominator_f64_def n by (simp add: f64_round_def)
  show ?thesis
    unfolding cosine_similarity_f64_def dot_f64_def d s
    by (simp add: all_zero_def)
qed

text \<open>
  Claim C6, amended. For vectors of equal length: if either is the all-zero vector the
  similarity is exactly 0; if each of them has an entry of magnitude \<open>2 ^ (- 537)\<close> or
  more, whose square therefore does not underflow, the division is reached with a
  denominator that is not 0.
\<close>

theorem cosine_similarity_f64_denominator:
  assumes "length u = length v"
  shows "(all_zero u \<or> all_zero v \<longrightarrow> cosine_similarity_f64 u v = Inr (Num 0)) \<and>
         ((\<exists>x \<in> set u. 1 / 2 ^ 537 \<le> \<bar>x\<bar>) \<and> (\<exists>y \<in> set v. 1 / 2 ^ 537 \<le> \<bar>y\<bar>) \<longrightarrow>
            denominator_f64 u v \<noteq> Num 0 \<and>
            cosine_similarity_f64 u v =
              Inr (f64_div (dot_acc (Num 0) (zip u v)) (denominator_f64 u v)))"
proof (intro conjI impI)
  assume "all_zero u \<or> all_zero v"
  then show "cosine_similarity_f64 u v = Inr (Num 0)"
    by (simp add: cosine_similarity_f64_def)
next
  assume h: "(\<exists>x \<in> set u. 1 / 2 ^ 537 \<le> \<bar>x\<bar>) \<and> (\<exists>y \<in> set v. 1 / 2 ^ 537 \<le> \<bar>y\<bar>)"
  then obtain x y where x: "x \<in> set u" "1 / 2 ^ 537 \<le> \<bar>x\<bar>" and y: "y \<in> set v" "1 / 2 ^ 537 \<le> \<bar>y\<bar>"
    by auto
  have "at_least (1 / 2 ^ 1074) (denominator_f64 u v)"
    unfolding denominator_f64_def
    by (intro denominator_f64_at_least norm_f64_at_least [OF x] norm_f64_at_least [OF y])
  then show "denominator_f64 u v \<noteq> Num 0"
    by (rule at_least_pos_nonzero) simp
  have "x \<noteq> 0" "y \<noteq> 0" using x(2) y(2) by auto
  then have "\<not> all_zero u" "\<not> all_zero v"
    using x(1) y(1) by (auto simp: all_zero_def list_all_iff)
  then show "cosine_similarity_f64 u v =
      Inr (f64_div (dot_acc (Num 0) (zip u v)) (denominator_f64 u v))"
    using assms by (simp add: cosine_similarity_f64_def dot_f64_def)
qed

lemma denominator_f64_example: "denominator_f64 [3, 4] [4, 3] = Num 25"
proof -
  have q: "sqrt 25 = 5" by (rule real_sqrt_unique) simp_all
  have "dot_acc (Num 0) (zip [3, 4] [3, 4]) = Num 25"
    by (simp add: f64_round_def f64_range_def)
  moreover have "dot_acc (Num 0) (zip [4, 3] [4, 3]) = Num 25"
    by (simp add: f64_round_def f64_range_def)
  ultimately show ?thesis
    by (simp add: denominator_f64_def norm_f64_def q f64_round_def f64_range_def)
qed

theorem cosine_similarity_f64_denominator_witness:
  "length [0, 0 :: real] = length [4, 3 :: real] \<and>
   cosine_similarity_f64 [0, 0] [4, 3] = Inr (Num 0) \<and>
   cosine_similarity_f64 [4, 3] [0, 0] = Inr (Num 0) \<and>
   denominator_f64 [3, 4] [4, 3] \<noteq> Num 0 \<and>
   cosine_similarity_f64 [3, 4] [4, 3] = Inr (Num (24 / 25))"
proof -
  show ?thesis
    using cosine_similarity_f64_denominator [of "[0, 0]" "[4, 3]"]
      cosine_similarity_f64_denominator [of "[4, 3]" "[0, 0]"]
      cosine_similarity_f64_denominator [of "[3, 4]" "[4, 3]"]
    by (simp add: all_zero_def denominator_f64_example f64_round_def f64_range_def)
qed

text \<open>
  On vectors whose entries are 0 or of magnitude \<open>2 ^ (- 537)\<close> or more, and whose sum of
  squares stays below the overflow threshold, the norm within the range of \<^verbatim>\<open>float64\<close> is
  the exact norm.
\<close>

lemma sum_squares_nonneg: "0 \<le> sum_list (map (\<lambda>x. x * x) (u :: real list))"
  by (rule sum_list_nonneg) auto

lemma f64_range_exact: "0 \<le> y \<Longrightarrow> y < 2 ^ 1024 - 2 ^ 970 \<Longrightarrow> f64_range y = Num y"
  by (simp add: f64_range_def)

lemma f64_round_square:
  assumes "x = 0 \<or> 1 / 2 ^ 537 \<le> \<bar>x\<bar>" and "x * x < 2 ^ 1024 - 2 ^ 970"
  shows "f64_round (x * x) = Num (x * x)"
proof (cases "x = 0")
  case True
  then show ?thesis by (simp add: f64_round_def)
next
  case False
  then have "1 / 2 ^ 1074 \<le> x * x" using assms(1) by (intro small_square) simp
  then have "\<not> \<bar>x * x\<bar> \<le> 1 / 2 ^ 1075" by simp
  moreover have "f64_range (x * x) = Num (x * x)"
    using assms(2) by (intro f64_range_exact) simp_all
  ultimately show ?thesis by (simp add: f64_round_def)
qed

lemma squares_exact:
  assumes "\<forall>x \<in> set u. x = 0 \<or> 1 / 2 ^ 537 \<le> \<bar>x\<bar>" and "0 \<le> a"
    and "a + sum_list (map (\<lambda>x. x * x) u) < 2 ^ 1024 - 2 ^ 970"
  shows "dot_acc (Num a) (zip u u) = Num (a + sum_list (map (\<lambda>x. x * x) u))"
  using assms
proof (induction u arbitrary: a)
  case Nil
  then show ?case by simp
next
  case (Cons x u)
  have r: "0 \<le> sum_list (map (\<lambda>x. x * x) u)" by (rule sum_squares_nonneg)
  have "x * x < 2 ^ 1024 - 2 ^ 970" using Cons.prems(2,3) r by simp
  then have m: "f64_round (x * x) = Num (x * x)"
    using Cons.prems(1) by (intro f64_round_square) simp_all
  have "a + x * x < 2 ^ 1024 - 2 ^ 970" using Cons.prems(3) r by simp
  moreover have "0 \<le> a + x * x" using Cons.prems(2) by simp
  ultimately have s: "f64_range (a + x * x) = Num (a + x * x)"
    by (intro f64_range_exact)
  have "dot_acc (Num (a + x * x)) (zip u u) =
          Num (a + x * x + sum_list (map (\<lambda>x. x * x) u))"
    using Cons.prems \<open>0 \<le> a + x * x\<close> by (intro Cons.IH) (simp_all add: add.assoc)
  then show ?case by (simp add: m s add.assoc)
qed

lemma norm_f64_exact:
  assumes "\<forall>x \<in> set u. x = 0 \<or> 1 / 2 ^ 537 \<le> \<bar>x\<bar>"
    and "sum_list (map (\<lambda>x. x * x) u) < 2 ^ 1024 - 2 ^ 970"
  shows "norm_f64 u = Num (norm_vec u)"
proof -
  have "dot_acc (Num 0) (zip u u) = Num (0 + sum_list (map (\<lambda>x. x * x) u))"
    using assms by (intro squares_exact) simp_all
  then show ?thesis
    using sum_squares_nonneg [of u] by (simp add: norm_f64_def norm_vec_def)
qed

lemma rint_0 [simp]: "rint 0 = 0"
  by (simp add: rint_def)

lemma np_round_0 [simp]: "np_round 0 n = 0"
  by (simp add: np_round_def)

lemma rint_nonneg: "0 \<le> x \<Longrightarrow> 0 \<le> rint x"
  by (auto simp: rint_def Let_def)

lemma np_round_nonneg: "0 \<le> x \<Longrightarrow> 0 \<le> np_round x n"
  by (simp add: np_round_def rint_nonneg)

lemma tnw_terms_prod:
  "set termset \<subseteq> dom nwk \<Longrightarrow>
   tnw_terms nwk termset tnw = tnw * prod_list (map (\<lambda>t. the (nwk t)) termset)"
  by (induction termset arbitrary: tnw) (auto simp: mult.assoc)

lemma mapM_total:
  "(\<And>x. x \<in> set xs \<Longrightarrow> f x = Inr (g x)) \<Longrightarrow> mapM f xs = Inr (map g xs)"
  by (induction xs) simp_all

lemma ts_idf_value:
  assumes "0 < N" and "docs \<noteq> {||}"
  shows "ts_idf N docs = Inr (np_round (log 2 (1 + of_int N / real (fcard docs))) 3)"
proof -
  have c: "0 < real (fcard docs)" using assms(2) by (simp add: zero_less_iff_neq_zero)
  then have "0 < real_of_int N / real (fcard docs)" using assms(1) by simp
  then have l: "\<not> 1 + real_of_int N / real (fcard docs) \<le> 0" by simp
  have z: "real (fcard docs) \<noteq> 0" using assms(2) by simp
  show ?thesis
    unfolding ts_idf_def py_div_def math_log2_def
    by (simp only: z l if_False bind_Inr)
qed

lemma ts_idf_nonneg:
  assumes "0 < N" and "docs \<noteq> {||}"
  shows "0 \<le> np_round (log 2 (1 + of_int N / real (fcard docs))) 3"
proof -
  have "0 < real (fcard docs)" using assms(2) by (simp add: zero_less_iff_neq_zero)
  then have "0 < real_of_int N / real (fcard docs)" using assms(1) by simp
  then have "0 \<le> log 2 (1 + of_int N / real (fcard docs))" by simp
  then show ?thesis by (rule np_round_nonneg)
qed

text \<open>
  Claim C3. For a positive collection size and an occurrence map whose document sets
  are non-empty and no larger than the collection, \<^verbatim>\<open>calculate_ts_idf\<close> returns one
  entry per termset, in the order of the map, each
  \<open>round (log2 (1 + N / |docs|), 3)\<close>, and no entry is negative.
\<close>

theorem calculate_ts_idf_entries:
  assumes "0 < N"
    and "\<forall>(termset, docs) \<in> set termsets. docs \<noteq> {||} \<and> int (fcard docs) \<le> N"
  shows "\<exists>vec. calculate_ts_idf termsets N = Inr vec \<and> length vec = length termsets \<and>
           (\<forall>i < length termsets.
              vec ! i = np_round (log 2 (1 + of_int N / real (fcard (snd (termsets ! i))))) 3 \<and>
              0 \<le> vec ! i)"
proof -
  let ?g = "\<lambda>(termset :: string list, docs). np_round (log 2 (1 + of_int N / real (fcard docs))) 3"
  have "calculate_ts_idf termsets N = Inr (map ?g termsets)"
    unfolding calculate_ts_idf_def
    by (rule mapM_total) (use assms in \<open>auto intro!: ts_idf_value\<close>)
  moreover have "\<forall>i < length termsets. 0 \<le> map ?g termsets ! i"
    using assms by (auto simp: case_prod_beta ts_idf_nonneg dest!: nth_mem)
  ultimately show ?thesis by (auto simp: case_prod_beta)
qed

theorem calculate_ts_idf_entries_witness:
  "(0 :: int) < 2 \<and> calculate_ts_idf [([''a''], {|1, 2|}), ([''b''], {|2|})] 2 = Inr [1, np_round (log 2 3) 3]"
proof -
  have h: "\<forall>(termset, docs) \<in> set [([''a''], {|1, 2 :: int|}), ([''b''], {|2|})].
             docs \<noteq> {||} \<and> int (fcard docs) \<le> 2"
    by (simp add: fcard_finsert_if fcard_fempty)
  from calculate_ts_idf_entries [OF _ h] obtain vec where
    v: "calculate_ts_idf [([''a''], {|1, 2|}), ([''b''], {|2|})] 2 = Inr vec"
    and l: "length vec = 2"
    and e: "\<forall>i < 2. vec ! i =
              np_round (log 2 (1 + 2 / real (fcard (snd ([([''a''], {|1, 2 :: int|}), ([''b''], {|2|})] ! i))))) 3"
    by auto
  have r: "np_round 1 3 = 1" by (simp add: np_round_def rint_def)
  have "vec ! 0 = 1"
    using e [rule_format, of 0] by (simp add: fcard_finsert_if fcard_fempty r)
  moreover have "vec ! 1 = np_round (log 2 3) 3"
    using e [rule_format, of 1] by (simp add: fcard_finsert_if fcard_fempty)
  ultimately have "vec = [1, np_round (log 2 3) 3]"
    using l by (auto simp: length_Suc_conv numeral_2_eq_2)
  with v show ?thesis by simp
qed

lemma prod_list_removeAll_one:
  "f t = (1 :: real) \<Longrightarrow> prod_list (map f (removeAll t xs)) = prod_list (map f xs)"
  by (induction xs) auto

text \<open>
  Claim C7. When every term of every termset has a weight, the tnw value of a termset
  is the product of the weights of its terms, rounded to 3 decimals; a term of weight 1
  can be left out of the product, and a term of weight 0 makes the value 0.
\<close>

theorem calculate_tnw_product:
  assumes "\<forall>(termset, docs) \<in> set termsets. set termset \<subseteq> dom nwk"
    and "i < length termsets"
  shows "length (calculate_tnw termsets nwk) = length termsets \<and>
         calculate_tnw termsets nwk ! i =
           np_round (prod_list (map (\<lambda>t. the (nwk t)) (fst (termsets ! i)))) 3 \<and>
         (\<forall>t \<in> set (fst (termsets ! i)). nwk t = Some 1 \<longrightarrow>
            calculate_tnw termsets nwk ! i =
              np_round (prod_list (map (\<lambda>t. the (nwk t)) (removeAll t (fst (termsets ! i))))) 3) \<and>
         ((\<exists>t \<in> set (fst (termsets ! i)). nwk t = Some 0) \<longrightarrow>
            calculate_tnw termsets nwk ! i = 0)"
proof -
  obtain termset docs where td: "termsets ! i = (termset, docs)" by force
  have sub: "set termset \<subseteq> dom nwk"
    using assms nth_mem [OF assms(2)] td by fastforce
  have v: "calculate_tnw termsets nwk ! i =
             np_round (prod_list (map (\<lambda>t. the (nwk t)) termset)) 3"
    using assms(2) by (simp add: calculate_tnw_def td tnw_terms_prod [OF sub])
  have one: "\<forall>t \<in> set termset. nwk t = Some 1 \<longrightarrow>
               prod_list (map (\<lambda>t. the (nwk t)) (removeAll t termset)) =
               prod_list (map (\<lambda>t. the (nwk t)) termset)"
    by (simp add: prod_list_removeAll_one)
  have zero: "(\<exists>t \<in> set termset. nwk t = Some 0) \<longrightarrow>
                prod_list (map (\<lambda>t. the (nwk t)) termset) = 0"
    by (force simp: prod_list_zero_iff)
  show ?thesis
    using v one zero by (simp add: td calculate_tnw_def)
qed

theorem calculate_tnw_product_witness:
  "calculate_tnw [([''a'', ''b''], {|1|})] [''a'' \<mapsto> 1, ''b'' \<mapsto> 1 / 2] ! 0 = 1 / 2 \<and>
   calculate_tnw [([''a'', ''b''], {|1|})] [''a'' \<mapsto> 3, ''b'' \<mapsto> 0] ! 0 = 0"
proof -
  have h1: "\<forall>(termset, docs) \<in> set [([''a'', ''b''], {|1 :: int|})].
              set termset \<subseteq> dom [''a'' \<mapsto> 1 :: real, ''b'' \<mapsto> 1 / 2]"
    by simp
  have h2: "\<forall>(termset, docs) \<in> set [([''a'', ''b''], {|1 :: int|})].
              set termset \<subseteq> dom [''a'' \<mapsto> 3 :: real, ''b'' \<mapsto> 0]"
    by simp
  have i: "0 < length [([''a'', ''b''], {|1 :: int|})]" by simp
  show ?thesis
    using calculate_tnw_product [OF h1 i] calculate_tnw_product [OF h2 i]
    by (simp add: np_round_def rint_def)
qed

section \<open>Properties of the ranking\<close>














section \<open>Properties of the termset frequency matrix\<close>

lemma consistent_termset_iff:
  "consistent_termset idx N (termset, docs) \<longleftrightarrow>
     termset \<noteq> [] \<and>
     (\<forall>d. d |\<in>| docs \<longrightarrow> 1 \<le> d \<and> d \<le> N) \<and>
     (\<forall>t \<in> set termset. \<exists>pl. idx t = Some pl \<and> distinct (map fst pl) \<and>
        (\<forall>(d, tf) \<in> set pl. 0 < tf) \<and>
        (\<forall>d. d |\<in>| docs \<longrightarrow> d \<in> fst ` set pl))"
  by (auto simp: consistent_termset_def split: option.splits) fastforce+

lemma map_of_temp_add:
  "map_of (temp_add temp k tf) =
     (map_of temp)(k \<mapsto> (case map_of temp k of None \<Rightarrow> [tf] | Some l \<Rightarrow> l @ [tf]))"
  by (induction temp k tf rule: temp_add.induct) (auto simp: fun_eq_iff)

lemma keys_temp_add: "fst ` set (temp_add temp k tf) = insert k (fst ` set temp)"
  by (induction temp k tf rule: temp_add.induct) auto

lemma distinct_temp_add:
  "distinct (map fst temp) \<Longrightarrow> distinct (map fst (temp_add temp k tf))"
  by (induction temp k tf rule: temp_add.induct) (auto simp: keys_temp_add)

lemma hits_Cons:
  "hits docs ((d, tf) # ps) k = (if d = k \<and> d |\<in>| docs then tf # hits docs ps k else hits docs ps k)"
  by (auto simp: hits_def)

lemma hits_Nil [simp]: "hits docs [] k = []"
  by (simp add: hits_def)

lemma hits_append: "hits docs (ps @ qs) k = hits docs ps k @ hits docs qs k"
  by (simp add: hits_def)

lemma scan_postings_props:
  "distinct (map fst temp) \<Longrightarrow>
   distinct (map fst (scan_postings docs ps temp)) \<and>
   map_of (scan_postings docs ps temp) k =
     (case map_of temp k of
        None \<Rightarrow> (if hits docs ps k = [] then None else Some (hits docs ps k))
      | Some l \<Rightarrow> Some (l @ hits docs ps k))"
proof (induction docs ps temp rule: scan_postings.induct)
  case (1 docs temp)
  then show ?case by (simp split: option.splits)
next
  case (2 docs ident tf rest temp)
  show ?case
  proof (cases "ident |\<in>| docs")
    case True
    with 2 have "distinct (map fst (temp_add temp ident tf))" by (simp add: distinct_temp_add)
    with 2 True show ?thesis
      by (auto simp: hits_Cons map_of_temp_add split: option.splits)
  next
    case False
    with 2 show ?thesis by (auto simp: hits_Cons split: option.splits)
  qed
qed

lemma scan_postings_append:
  "scan_postings docs (ps @ qs) temp = scan_postings docs qs (scan_postings docs ps temp)"
  by (induction docs ps temp rule: scan_postings.induct) simp_all

lemma scan_terms_total:
  "\<forall>t \<in> set terms. idx t \<noteq> None \<Longrightarrow>
   scan_terms idx docs terms temp =
     Inr (scan_postings docs (concat (map (\<lambda>t. the (idx t)) terms)) temp)"
  by (induction terms arbitrary: temp) (auto simp: scan_postings_append)

lemma hits_outside: "k \<notin> fst ` set ps \<Longrightarrow> hits docs ps k = []"
  by (induction ps) (auto simp: hits_Cons)

lemma hits_not_in_docs: "\<not> k |\<in>| docs \<Longrightarrow> hits docs ps k = []"
  by (induction ps) (auto simp: hits_Cons)

lemma hits_posting:
  "distinct (map fst pl) \<Longrightarrow> k \<in> fst ` set pl \<Longrightarrow> k |\<in>| docs \<Longrightarrow>
   hits docs pl k = [the (map_of pl k)]"
proof (induction pl)
  case Nil
  then show ?case by simp
next
  case (Cons p pl)
  obtain d tf where p: "p = (d, tf)" by (cases p)
  show ?case
  proof (cases "d = k")
    case True
    with Cons.prems p have "k \<notin> fst ` set pl" by auto
    then have "hits docs pl k = []" by (rule hits_outside)
    with True Cons.prems p show ?thesis by (simp add: hits_Cons)
  next
    case False
    with Cons p show ?thesis by (auto simp: hits_Cons)
  qed
qed

lemma hits_concat: "hits docs (concat pss) k = concat (map (\<lambda>ps. hits docs ps k) pss)"
  by (induction pss) (simp_all add: hits_append)

lemma hits_termset:
  assumes "\<forall>t \<in> set terms. \<exists>pl. idx t = Some pl \<and> distinct (map fst pl) \<and> k \<in> fst ` set pl"
    and "k |\<in>| docs"
  shows "hits docs (concat (map (\<lambda>t. the (idx t)) terms)) k =
           map (\<lambda>t. term_frequency idx t k) terms"
  using assms(1)
proof (induction terms)
  case Nil
  then show ?case by simp
next
  case (Cons t terms)
  from Cons.prems obtain pl where pl: "idx t = Some pl" "distinct (map fst pl)" "k \<in> fst ` set pl"
    by auto
  then have m: "map_of pl k \<noteq> None" by (simp add: map_of_eq_None_iff)
  have "hits docs pl k = [term_frequency idx t k]"
    using hits_posting [OF pl(2,3) assms(2)] pl(1) m
    by (auto simp: term_frequency_def)
  with Cons pl(1) show ?case by (simp add: hits_append)
qed

lemma tsf_weight_value:
  "tfs \<noteq> [] \<Longrightarrow> 0 < min_list tfs \<Longrightarrow> tsf_weight tfs = Inr (tsf_value tfs)"
  by (simp add: tsf_weight_def py_min_def math_log2_def tsf_value_def)

lemma np_index_row: "i < n \<Longrightarrow> np_index n (int i) = Inr i"
  by (simp add: np_index_def)

lemma np_index_col: "1 \<le> k \<Longrightarrow> k \<le> int n \<Longrightarrow> np_index n (k - 1) = Inr (nat (k - 1))"
  by (simp add: np_index_def)

lemma length_assigned_row [simp]: "length (assigned_row temp row) = length row"
  by (simp add: assigned_row_def)

lemma assigned_row_Nil [simp]: "assigned_row [] row = row"
  by (simp add: assigned_row_def map_nth)

lemma assigned_row_Cons:
  assumes "k \<notin> fst ` set temp" and "1 \<le> k" and "k \<le> int (length row)"
  shows "assigned_row temp (row[nat (k - 1) := tsf_value tfs]) = assigned_row ((k, tfs) # temp) row"
proof (rule nth_equalityI)
  show "length (assigned_row temp (row[nat (k - 1) := tsf_value tfs])) =
        length (assigned_row ((k, tfs) # temp) row)"
    by simp
next
  fix j assume "j < length (assigned_row temp (row[nat (k - 1) := tsf_value tfs]))"
  then have j: "j < length row" by simp
  show "assigned_row temp (row[nat (k - 1) := tsf_value tfs]) ! j =
        assigned_row ((k, tfs) # temp) row ! j"
  proof (cases "int j + 1 = k")
    case True
    then have c: "nat (k - 1) = j" by simp
    from assms(1) have "map_of temp k = None" by (simp add: map_of_eq_None_iff)
    with True j c show ?thesis by (simp add: assigned_row_def)
  next
    case False
    then have "nat (k - 1) \<noteq> j" using assms(2) by auto
    with False j show ?thesis by (simp add: assigned_row_def split: option.splits)
  qed
qed

lemma assign_cells_result:
  assumes "i < nrows m" and "length (cells m) = nrows m" and "length (cells m ! i) = ncols m"
    and "distinct (map fst temp)"
    and "\<forall>(k, tfs) \<in> set temp. 1 \<le> k \<and> k \<le> int (ncols m) \<and> tfs \<noteq> [] \<and> 0 < min_list tfs"
  shows "assign_cells i temp m = Inr (m\<lparr>cells := (cells m)[i := assigned_row temp (cells m ! i)]\<rparr>)"
  using assms
proof (induction temp arbitrary: m)
  case Nil
  then show ?case by simp
next
  case (Cons p temp)
  obtain k tfs where p: "p = (k, tfs)" by (cases p)
  let ?row = "cells m ! i"
  let ?m1 = "m\<lparr>cells := (cells m)[i := ?row[nat (k - 1) := tsf_value tfs]]\<rparr>"
  from Cons.prems p have k: "1 \<le> k" "k \<le> int (ncols m)" "tfs \<noteq> []" "0 < min_list tfs"
    and notin: "k \<notin> fst ` set temp" and d: "distinct (map fst temp)"
    by auto
  have step: "assign_cells i (p # temp) m = assign_cells i temp ?m1"
    using Cons.prems(1) k
    by (simp add: p tsf_weight_value np_index_row np_index_col)
  have i: "i < length (cells m)" using Cons.prems(1,2) by simp
  have ih: "assign_cells i temp ?m1 =
              Inr (?m1\<lparr>cells := (cells ?m1)[i := assigned_row temp (cells ?m1 ! i)]\<rparr>)"
    by (rule Cons.IH) (use Cons.prems p i d in \<open>auto\<close>)
  have "assigned_row temp (cells ?m1 ! i) = assigned_row (p # temp) ?row"
    using assigned_row_Cons [OF notin k(1), of ?row tfs] k(2) Cons.prems(3) i by (simp add: p)
  then show ?case by (simp add: step ih)
qed

lemma term_frequency_pos:
  assumes "idx t = Some pl" and "\<forall>(d, tf) \<in> set pl. 0 < tf" and "k \<in> fst ` set pl"
  shows "0 < term_frequency idx t k"
proof -
  from assms(3) obtain tf where "map_of pl k = Some tf"
    by (metis map_of_eq_None_iff not_Some_eq)
  moreover from this have "(k, tf) \<in> set pl" by (rule map_of_SomeD)
  ultimately show ?thesis using assms(1,2) by (auto simp: term_frequency_def)
qed

lemma min_list_pos:
  assumes "xs \<noteq> []" and "\<forall>x \<in> set xs. (0 :: int) < x"
  shows "0 < min_list xs"
proof -
  have "min_list xs = Min (set xs)" using assms(1) by (rule min_list_Min)
  moreover have "Min (set xs) \<in> set xs" using assms(1) by (intro Min_in) simp_all
  ultimately show ?thesis using assms(2) by simp
qed

lemma termset_temp:
  assumes c: "consistent_termset idx N (termset, docs)"
  defines "temp \<equiv> scan_postings docs (concat (map (\<lambda>t. the (idx t)) termset)) []"
  shows "scan_terms idx docs termset [] = Inr temp"
    and "distinct (map fst temp)"
    and "map_of temp k =
           (if k |\<in>| docs then Some (map (\<lambda>t. term_frequency idx t k) termset) else None)"
proof -
  from c have ne: "termset \<noteq> []"
    and terms: "\<forall>t \<in> set termset. \<exists>pl. idx t = Some pl \<and> distinct (map fst pl) \<and>
        (\<forall>(d, tf) \<in> set pl. 0 < tf) \<and> (\<forall>d. d |\<in>| docs \<longrightarrow> d \<in> fst ` set pl)"
    by (simp_all add: consistent_termset_iff)
  from terms have "\<forall>t \<in> set termset. idx t \<noteq> None" by auto
  then show "scan_terms idx docs termset [] = Inr temp"
    unfolding temp_def by (rule scan_terms_total)
  have props: "distinct (map fst temp) \<and>
      map_of temp k =
        (if hits docs (concat (map (\<lambda>t. the (idx t)) termset)) k = [] then None
         else Some (hits docs (concat (map (\<lambda>t. the (idx t)) termset)) k))"
    unfolding temp_def
    using scan_postings_props [of "[]" docs "concat (map (\<lambda>t. the (idx t)) termset)" k]
    by simp
  then show "distinct (map fst temp)" by simp
  show "map_of temp k =
          (if k |\<in>| docs then Some (map (\<lambda>t. term_frequency idx t k) termset) else None)"
  proof (cases "k |\<in>| docs")
    case True
    with terms have "\<forall>t \<in> set termset. \<exists>pl. idx t = Some pl \<and> distinct (map fst pl) \<and>
        k \<in> fst ` set pl"
      by blast
    from hits_termset [OF this True] ne props True show ?thesis by simp
  next
    case False
    then show ?thesis using props by (simp add: hits_not_in_docs)
  qed
qed

lemma termset_temp_wf:
  assumes c: "consistent_termset idx N (termset, docs)"
    and "(k, tfs) \<in> set (scan_postings docs (concat (map (\<lambda>t. the (idx t)) termset)) [])"
  shows "1 \<le> k \<and> k \<le> N \<and> tfs \<noteq> [] \<and> 0 < min_list tfs"
proof -
  let ?temp = "scan_postings docs (concat (map (\<lambda>t. the (idx t)) termset)) []"
  have "map_of ?temp k = Some tfs"
    using termset_temp(2) [OF c] assms(2) by (rule map_of_is_SomeI)
  with termset_temp(3) [OF c, of k]
  have k: "k |\<in>| docs" and tfs: "tfs = map (\<lambda>t. term_frequency idx t k) termset"
    by (auto split: if_splits)
  from c have ne: "termset \<noteq> []"
    and rng: "\<forall>d. d |\<in>| docs \<longrightarrow> 1 \<le> d \<and> d \<le> N"
    and terms: "\<forall>t \<in> set termset. \<exists>pl. idx t = Some pl \<and> distinct (map fst pl) \<and>
        (\<forall>(d, tf) \<in> set pl. 0 < tf) \<and> (\<forall>d. d |\<in>| docs \<longrightarrow> d \<in> fst ` set pl)"
    by (simp_all add: consistent_termset_iff)
  have "0 < term_frequency idx t k" if "t \<in> set termset" for t
  proof -
    from terms that obtain pl where "idx t = Some pl" "\<forall>(d, tf) \<in> set pl. 0 < tf"
      "\<forall>d. d |\<in>| docs \<longrightarrow> d \<in> fst ` set pl"
      by blast
    with k show ?thesis by (intro term_frequency_pos [of idx t pl k]) simp_all
  qed
  then have "\<forall>x \<in> set tfs. 0 < x" by (auto simp: tfs)
  moreover have "tfs \<noteq> []" using ne by (simp add: tfs)
  ultimately show ?thesis using rng k by (simp add: min_list_pos)
qed

lemma assigned_row_temp:
  assumes c: "consistent_termset idx N (termset, docs)"
  shows "assigned_row (scan_postings docs (concat (map (\<lambda>t. the (idx t)) termset)) []) row =
           new_row idx (termset, docs) row"
  by (simp add: assigned_row_def new_row_def termset_temp(3) [OF c])

lemma termset_step:
  assumes c: "consistent_termset idx (int (ncols m)) (termset, docs)"
    and "i < nrows m" and "length (cells m) = nrows m" and "length (cells m ! i) = ncols m"
  shows "bind (scan_terms idx docs termset []) (\<lambda>temp. assign_cells i temp m) =
           Inr (m\<lparr>cells := (cells m)[i := new_row idx (termset, docs) (cells m ! i)]\<rparr>)"
proof -
  let ?temp = "scan_postings docs (concat (map (\<lambda>t. the (idx t)) termset)) []"
  have wf: "\<forall>(k, tfs) \<in> set ?temp. 1 \<le> k \<and> k \<le> int (ncols m) \<and> tfs \<noteq> [] \<and> 0 < min_list tfs"
    using termset_temp_wf [OF c] by blast
  have "assign_cells i ?temp m = Inr (m\<lparr>cells := (cells m)[i := assigned_row ?temp (cells m ! i)]\<rparr>)"
    using assms(2-4) termset_temp(2) [OF c] wf by (rule assign_cells_result)
  then show ?thesis
    by (simp add: termset_temp(1) [OF c] assigned_row_temp [OF c])
qed

lemma well_formed_zeros: "well_formed (zeros r c)"
  by (simp add: well_formed_def zeros_def list_all_length)

lemma well_formed_update:
  "well_formed m \<Longrightarrow> length row = ncols m \<Longrightarrow> well_formed (m\<lparr>cells := (cells m)[i := row]\<rparr>)"
  by (cases "i < length (cells m)") (auto simp: well_formed_def list_all_length nth_list_update)

lemma well_formed_row: "well_formed m \<Longrightarrow> k < nrows m \<Longrightarrow> length (cells m ! k) = ncols m"
  by (simp add: well_formed_def list_all_length)

lemma length_new_row [simp]: "length (new_row idx ts row) = length row"
  by (cases ts) (simp add: new_row_def)

lemma tsf_loop_result:
  assumes "\<forall>ts \<in> set tss. consistent_termset idx (int (ncols m)) ts"
    and "i + length tss \<le> nrows m" and "well_formed m"
  shows "\<exists>m'. tsf_loop idx i tss m = Inr m' \<and> nrows m' = nrows m \<and> ncols m' = ncols m \<and>
           well_formed m' \<and>
           (\<forall>k < nrows m. cells m' ! k =
              (if i \<le> k \<and> k < i + length tss then new_row idx (tss ! (k - i)) (cells m ! k)
               else cells m ! k))"
  using assms
proof (induction tss arbitrary: i m)
  case Nil
  then show ?case by auto
next
  case (Cons ts tss)
  obtain termset docs where ts: "ts = (termset, docs)" by (cases ts)
  let ?m1 = "m\<lparr>cells := (cells m)[i := new_row idx ts (cells m ! i)]\<rparr>"
  from Cons.prems have i: "i < nrows m" and c: "consistent_termset idx (int (ncols m)) (termset, docs)"
    by (auto simp: ts)
  have len: "length (cells m) = nrows m" using Cons.prems(3) by (simp add: well_formed_def)
  have row: "length (cells m ! i) = ncols m" using Cons.prems(3) i by (rule well_formed_row)
  have "bind (scan_terms idx docs termset []) (\<lambda>temp. assign_cells i temp m) = Inr ?m1"
    using termset_step [OF c i len row] by (simp add: ts)
  then obtain temp where t: "scan_terms idx docs termset [] = Inr temp"
    and a: "assign_cells i temp m = Inr ?m1"
    by (auto simp: bind_eq_Inr)
  have step: "tsf_loop idx i (ts # tss) m = tsf_loop idx (i + 1) tss ?m1"
    by (simp add: ts t a)
  have wf1: "well_formed ?m1" using Cons.prems(3) row by (intro well_formed_update) simp_all
  have "\<exists>m'. tsf_loop idx (i + 1) tss ?m1 = Inr m' \<and> nrows m' = nrows ?m1 \<and>
          ncols m' = ncols ?m1 \<and> well_formed m' \<and>
          (\<forall>k < nrows ?m1. cells m' ! k =
             (if i + 1 \<le> k \<and> k < i + 1 + length tss
              then new_row idx (tss ! (k - (i + 1))) (cells ?m1 ! k)
              else cells ?m1 ! k))"
    by (rule Cons.IH) (use Cons.prems wf1 in \<open>auto\<close>)
  then obtain m' where m': "tsf_loop idx (i + 1) tss ?m1 = Inr m'" "nrows m' = nrows m"
    "ncols m' = ncols m" "well_formed m'"
    and rows: "\<forall>k < nrows m. cells m' ! k =
             (if i + 1 \<le> k \<and> k < i + 1 + length tss
              then new_row idx (tss ! (k - (i + 1))) (cells ?m1 ! k)
              else cells ?m1 ! k)"
    by auto
  have "cells m' ! k =
          (if i \<le> k \<and> k < i + length (ts # tss)
           then new_row idx ((ts # tss) ! (k - i)) (cells m ! k)
           else cells m ! k)" if k: "k < nrows m" for k
  proof (cases "k = i")
    case True
    with rows k i len show ?thesis by simp
  next
    case False
    then have "cells ?m1 ! k = cells m ! k" by simp
    moreover have "i \<le> k \<Longrightarrow> (ts # tss) ! (k - i) = tss ! (k - (i + 1))"
      using False by (simp add: nth_Cons')
    ultimately show ?thesis using rows k False by auto
  qed
  with m' step show ?case by auto
qed

lemma tsf_value_Min:
  "termset \<noteq> [] \<Longrightarrow>
   tsf_value (map f termset) = np_round (1 + log 2 (of_int (Min (f ` set termset)))) 3"
  by (simp add: tsf_value_def min_list_Min)

text \<open>
  Claim C2. For a collection of \<open>N\<close> documents and an inverted index consistent with the
  termsets, \<^verbatim>\<open>calculate_tsf\<close> returns a matrix with one row per termset and \<open>N\<close> columns.
  In the row of a termset the cell of document \<open>d\<close>, which is column \<open>d - 1\<close>, is
  \<open>round (1 + log2 m, 3)\<close> for the least frequency \<open>m\<close> of the terms of the termset in \<open>d\<close>
  when \<open>d\<close> is one of the documents of the termset, and exactly 0 when it is not.
\<close>

theorem calculate_tsf_cells:
  assumes "0 \<le> N" and "consistent termsets idx N"
  shows "\<exists>M. calculate_tsf termsets idx N = Inr M \<and>
           nrows M = length termsets \<and> ncols M = nat N \<and> well_formed M \<and>
           (\<forall>i < length termsets. \<forall>d \<in> {1..N}.
              cells M ! i ! nat (d - 1) =
                (if d |\<in>| snd (termsets ! i)
                 then np_round (1 + log 2 (of_int
                        (Min ((\<lambda>t. term_frequency idx t d) ` set (fst (termsets ! i)))))) 3
                 else 0))"
proof -
  let ?z = "zeros (length termsets) (nat N)"
  have c: "\<forall>ts \<in> set termsets. consistent_termset idx (int (ncols ?z)) ts"
    using assms by (simp add: consistent_def zeros_def)
  have "\<exists>M. tsf_loop idx 0 termsets ?z = Inr M \<and> nrows M = nrows ?z \<and> ncols M = ncols ?z \<and>
          well_formed M \<and>
          (\<forall>k < nrows ?z. cells M ! k =
             (if 0 \<le> k \<and> k < 0 + length termsets
              then new_row idx (termsets ! (k - 0)) (cells ?z ! k)
              else cells ?z ! k))"
    by (rule tsf_loop_result [OF c _ well_formed_zeros]) (simp add: zeros_def)
  then obtain M where M: "tsf_loop idx 0 termsets ?z = Inr M" "nrows M = length termsets"
    "ncols M = nat N" "well_formed M"
    and rows: "\<forall>k < length termsets. cells M ! k =
                 new_row idx (termsets ! k) (replicate (nat N) 0)"
    by (auto simp: zeros_def)
  have cellv: "cells M ! i ! nat (d - 1) =
          (if d |\<in>| snd (termsets ! i)
           then np_round (1 + log 2 (of_int
                  (Min ((\<lambda>t. term_frequency idx t d) ` set (fst (termsets ! i)))))) 3
           else 0)" if i: "i < length termsets" and d: "d \<in> {1..N}" for i d
  proof -
    obtain termset docs where ts: "termsets ! i = (termset, docs)" by (cases "termsets ! i")
    from assms(2) i have "consistent_termset idx N (termsets ! i)"
      by (simp add: consistent_def)
    then have ne: "termset \<noteq> []" by (simp add: ts consistent_termset_iff)
    from d have j: "nat (d - 1) < nat N" "int (nat (d - 1)) + 1 = d" by auto
    show ?thesis
      using rows i j by (simp add: ts new_row_def tsf_value_Min [OF ne])
  qed
  have "calculate_tsf termsets idx N = Inr M"
    using assms(1) M(1) by (simp add: calculate_tsf_def)
  with M cellv show ?thesis by blast
qed


theorem calculate_tsf_cells_witness:
  "(0 :: int) \<le> 3 \<and>
   consistent [([''a''], {|1, 2, 3|}), ([''a'', ''b''], {|1, 2|})]
     [''a'' \<mapsto> [(1, 2), (2, 1), (3, 1)], ''b'' \<mapsto> [(1, 4), (2, 3)]] 3 \<and>
   calculate_tsf [([''a''], {|1, 2, 3|}), ([''a'', ''b''], {|1, 2|})]
     [''a'' \<mapsto> [(1, 2), (2, 1), (3, 1)], ''b'' \<mapsto> [(1, 4), (2, 3)]] 3 =
     Inr \<lparr>nrows = 2, ncols = 3, cells = [[2, 1, 1], [2, 1, 0]]\<rparr>"
proof -
  let ?ts = "[([''a''], {|1, 2, 3 :: int|}), ([''a'', ''b''], {|1, 2|})]"
  let ?idx = "[''a'' \<mapsto> [(1, 2), (2, 1), (3, 1)], ''b'' \<mapsto> [(1 :: int, 4 :: int), (2, 3)]]"
  have c: "consistent ?ts ?idx 3"
    by (simp add: consistent_def consistent_termset_def)
  have r: "np_round 1 3 = 1" "np_round 2 3 = 2" by (simp_all add: np_round_def rint_def)
  from calculate_tsf_cells [OF _ c] obtain M where
    v: "calculate_tsf ?ts ?idx 3 = Inr M"
    and s: "nrows M = 2" "ncols M = 3" "well_formed M"
    and e: "\<forall>i < 2. \<forall>d \<in> {1..3}. cells M ! i ! nat (d - 1) =
              (if d |\<in>| snd (?ts ! i)
               then np_round (1 + log 2 (of_int
                      (Min ((\<lambda>t. term_frequency ?idx t d) ` set (fst (?ts ! i)))))) 3
               else 0)"
    by auto
  have c00: "cells M ! 0 ! 0 = 2" using e [rule_format, of 0 1] by (simp add: term_frequency_def r)
  have c01: "cells M ! 0 ! 1 = 1" using e [rule_format, of 0 2] by (simp add: term_frequency_def r)
  have c02: "cells M ! 0 ! 2 = 1" using e [rule_format, of 0 3] by (simp add: term_frequency_def r)
  have c10: "cells M ! 1 ! 0 = 2" using e [rule_format, of 1 1] by (simp add: term_frequency_def r)
  have c11: "cells M ! 1 ! 1 = 1" using e [rule_format, of 1 2] by (simp add: term_frequency_def r)
  have c12: "cells M ! 1 ! 2 = 0" using e [rule_format, of 1 3] by (simp add: term_frequency_def r)
  have l: "length (cells M) = 2" "length (cells M ! 0) = 3" "length (cells M ! 1) = 3"
    using s by (simp_all add: well_formed_def list_all_length)
  have r0: "cells M ! 0 = [2, 1, 1]"
    using l(2) c00 c01 c02 by (auto simp: length_Suc_conv numeral_3_eq_3)
  have r1: "cells M ! 1 = [2, 1, 0]"
    using l(3) c10 c11 c12 by (auto simp: length_Suc_conv numeral_3_eq_3)
  have "cells M = [[2, 1, 1], [2, 1, 0]]"
    using l(1) r0 r1 by (auto simp: length_Suc_conv numeral_2_eq_2)
  with s(1,2) have "M = \<lparr>nrows = 2, ncols = 3, cells = [[2, 1, 1], [2, 1, 0]]\<rparr>"
    by (cases M) simp
  with v c show ?thesis by simp
qed

section \<open>Properties of the duplicates in \<^verbatim>\<open>BaseIRModel\<close>\<close>







end
